theory Spec2Isabelle
  imports Complex_Main "HOL-Library.Sublist"
begin

section \<open>Python strings\<close>

text \<open>
  A Python \<open>str\<close> is modelled as a \<open>string\<close> whose characters are the code points
  below 256. The character classes are the ones CPython uses for \<open>str.strip()\<close>,
  \<open>str.lower()\<close> and for \<open>\s\<close>, \<open>\w\<close>, \<open>\d\<close> in a \<open>str\<close> pattern, restricted to that
  range.
\<close>

abbreviation NL :: char where
  "NL \<equiv> CHR 0x0A"

abbreviation DQ :: char where
  "DQ \<equiv> CHR 0x22"

definition ord :: "char \<Rightarrow> nat" where
  "ord c = of_char c"

definition is_space :: "char \<Rightarrow> bool" where
  \<comment> \<open>\<open>str.isspace\<close>, which is also the regular expression class \<open>\s\<close>\<close>
  "is_space c =
     (let n = ord c in
      (9 \<le> n \<and> n \<le> 13) \<or> (28 \<le> n \<and> n \<le> 32) \<or> n = 133 \<or> n = 160)"

definition is_digit :: "char \<Rightarrow> bool" where
  \<comment> \<open>the class \<open>\d\<close>: decimal digits\<close>
  "is_digit c = (let n = ord c in 48 \<le> n \<and> n \<le> 57)"

definition is_upper :: "char \<Rightarrow> bool" where
  \<comment> \<open>the characters \<open>str.lower\<close> changes\<close>
  "is_upper c =
     (let n = ord c in (65 \<le> n \<and> n \<le> 90) \<or> (192 \<le> n \<and> n \<le> 222 \<and> n \<noteq> 215))"

definition is_word :: "char \<Rightarrow> bool" where
  \<comment> \<open>the class \<open>\w\<close>: alphanumeric (alphabetic, decimal, digit or numeric) or underscore\<close>
  "is_word c =
     (let n = ord c in
      (48 \<le> n \<and> n \<le> 57) \<or> (65 \<le> n \<and> n \<le> 90) \<or> n = 95 \<or> (97 \<le> n \<and> n \<le> 122) \<or>
      n = 170 \<or> n = 178 \<or> n = 179 \<or> n = 181 \<or> n = 185 \<or> n = 186 \<or>
      (188 \<le> n \<and> n \<le> 190) \<or> (192 \<le> n \<and> n \<le> 214) \<or> (216 \<le> n \<and> n \<le> 246) \<or>
      (248 \<le> n \<and> n \<le> 255))"

definition lower_char :: "char \<Rightarrow> char" where
  "lower_char c = (if is_upper c then char_of (ord c + 32) else c)"

definition lower :: "string \<Rightarrow> string" where
  \<comment> \<open>\<open>str.lower()\<close>\<close>
  "lower s = map lower_char s"

definition lstrip :: "string \<Rightarrow> string" where
  "lstrip s = dropWhile is_space s"

definition rstrip :: "string \<Rightarrow> string" where
  "rstrip s = rev (dropWhile is_space (rev s))"

definition strip :: "string \<Rightarrow> string" where
  \<comment> \<open>\<open>str.strip()\<close> with no argument: whitespace off both ends\<close>
  "strip s = rstrip (lstrip s)"

fun contains :: "string \<Rightarrow> string \<Rightarrow> bool" where
  \<comment> \<open>\<open>sub in s\<close>\<close>
  "contains sub [] = (sub = [])"
| "contains sub (c # cs) = (prefix sub (c # cs) \<or> contains sub cs)"

fun str_find :: "string \<Rightarrow> string \<Rightarrow> nat option" where
  \<comment> \<open>\<open>s.find(sub)\<close>: the index of the first occurrence, \<open>None\<close> for Python's \<open>-1\<close>\<close>
  "str_find sub [] = (if sub = [] then Some 0 else None)"
| "str_find sub (c # cs) =
     (if prefix sub (c # cs) then Some 0 else map_option Suc (str_find sub cs))"

function split_from :: "char \<Rightarrow> string \<Rightarrow> string \<Rightarrow> string list" where
  "split_from d ds s =
     (case str_find (d # ds) s of
        None \<Rightarrow> [s]
      | Some j \<Rightarrow> take j s # split_from d ds (drop (j + Suc (length ds)) s))"
  by pat_completeness auto
termination
proof (relation "measure (\<lambda>(d, ds, s). length s)")
  show "wf (measure (\<lambda>(d, ds, s). length s))"
    by simp
next
  fix d :: char and ds s :: string and j :: nat
  assume found: "str_find (d # ds) s = Some j"
  have "s \<noteq> []"
    using found by (cases s) auto
  then show "((d, ds, drop (j + Suc (length ds)) s), (d, ds, s)) \<in> measure (\<lambda>(d, ds, s). length s)"
    by simp
qed

definition str_split :: "string \<Rightarrow> char \<Rightarrow> string \<Rightarrow> string list" where
  \<comment> \<open>\<open>s.split(sep)\<close> for the separator \<open>d # ds\<close>: the source only splits on the
      literals \<open>'\n'\<close> and \<open>'- '\<close>, so the separator is never empty\<close>
  "str_split s d ds = split_from d ds s"

fun str_join :: "string \<Rightarrow> string list \<Rightarrow> string" where
  \<comment> \<open>\<open>sep.join(parts)\<close>\<close>
  "str_join sep [] = []"
| "str_join sep [p] = p"
| "str_join sep (p # q # ps) = p @ sep @ str_join sep (q # ps)"

fun lines_from :: "string \<Rightarrow> string \<Rightarrow> string list" where
  "lines_from acc [] = (if acc = [] then [] else [rev acc])"
| "lines_from acc (c # cs) =
     (if c = NL then rev (c # acc) # lines_from [] cs else lines_from (c # acc) cs)"

definition iter_lines :: "string \<Rightarrow> string list" where
  \<comment> \<open>iterating over a fresh \<open>io.StringIO(content)\<close>: the lines, each with its
      terminating newline, the last one without when the content does not end in one\<close>
  "iter_lines content = lines_from [] content"

function digits_of :: "nat \<Rightarrow> string" where
  "digits_of n =
     (if n < 10 then [char_of (48 + n)] else digits_of (n div 10) @ [char_of (48 + n mod 10)])"
  by pat_completeness auto
termination
  by (relation "measure id") auto

definition str_int :: "int \<Rightarrow> string" where
  \<comment> \<open>\<open>str(i)\<close>, as an f-string formats an \<open>int\<close>\<close>
  "str_int i = (if i < 0 then CHR ''-'' # digits_of (nat (- i)) else digits_of (nat i))"

section \<open>Regular expressions of the parser\<close>

datatype pat = Digit | Lit char

fun pat_match :: "pat \<Rightarrow> char \<Rightarrow> bool" where
  "pat_match Digit c = is_digit c"
| "pat_match (Lit l) c = (c = l)"

definition fullmatch :: "pat list \<Rightarrow> string \<Rightarrow> bool" where
  \<comment> \<open>\<open>re.fullmatch\<close> of a pattern that is a fixed sequence of one-character items\<close>
  "fullmatch p s = list_all2 pat_match p s"

definition clock_pattern :: "pat list" where
  \<comment> \<open>\<open>\d{2}:\d{2}:\d{2},\d{3}\<close>\<close>
  "clock_pattern =
     [Digit, Digit, Lit CHR '':'', Digit, Digit, Lit CHR '':'', Digit, Digit, Lit CHR '','',
      Digit, Digit, Digit]"

definition timestamp_pattern :: "pat list" where
  \<comment> \<open>\<open>\d{2}:\d{2}:\d{2},\d{3} --> \d{2}:\d{2}:\d{2},\d{3}\<close>\<close>
  "timestamp_pattern = clock_pattern @ map Lit '' --> '' @ clock_pattern"

definition is_index_line :: "string \<Rightarrow> bool" where
  \<comment> \<open>\<open>re.fullmatch(r'\d+', line)\<close>\<close>
  "is_index_line line = (line \<noteq> [] \<and> list_all is_digit line)"

definition is_timestamp_line :: "string \<Rightarrow> bool" where
  "is_timestamp_line line = fullmatch timestamp_pattern line"

definition url_at :: "string \<Rightarrow> string option" where
  \<comment> \<open>a match of \<open>http\S+|www.\S+\<close> at the start of \<open>s\<close>: what follows the match.
      \<open>\S+\<close> is greedy and nothing follows it; \<open>.\<close> is any character but a newline\<close>
  "url_at s =
     (if prefix ''http'' s \<and> (case drop 4 s of [] \<Rightarrow> False | c # _ \<Rightarrow> \<not> is_space c)
      then Some (dropWhile (\<lambda>c. \<not> is_space c) (drop 4 s))
      else if prefix ''www'' s \<and>
              (case drop 3 s of a # b # _ \<Rightarrow> a \<noteq> NL \<and> \<not> is_space b | _ \<Rightarrow> False)
      then Some (dropWhile (\<lambda>c. \<not> is_space c) (drop 4 s))
      else None)"

function remove_urls :: "string \<Rightarrow> string" where
  \<comment> \<open>\<open>re.sub(r'http\S+|www.\S+', '', text)\<close>: the leftmost matches, left to right\<close>
  "remove_urls [] = []"
| "remove_urls (c # cs) =
     (case url_at (c # cs) of
        Some rest \<Rightarrow> remove_urls rest
      | None \<Rightarrow> c # remove_urls cs)"
  by pat_completeness auto
termination
proof (relation "measure length")
  show "wf (measure length)"
    by simp
next
  fix c :: char and cs rest :: string
  assume m: "url_at (c # cs) = Some rest"
  have "length (dropWhile (\<lambda>c. \<not> is_space c) (drop 4 (c # cs))) \<le> length (drop 4 (c # cs))"
    by (rule length_dropWhile_le)
  moreover have "rest = dropWhile (\<lambda>c. \<not> is_space c) (drop 4 (c # cs))"
    using m by (auto simp: url_at_def split: if_splits)
  ultimately show "(rest, c # cs) \<in> measure length"
    by simp
next
  fix c :: char and cs :: string
  show "(cs, c # cs) \<in> measure length"
    by simp
qed

definition remove_punctuation :: "string \<Rightarrow> string" where
  \<comment> \<open>\<open>re.sub(r'[^\w\s]', '', text)\<close>\<close>
  "remove_punctuation text = filter (\<lambda>c. is_word c \<or> is_space c) text"

section \<open>The text normalizer\<close>

text \<open>
  The libraries the normalizer calls are parameters of the model: BeautifulSoup's
  \<open>BeautifulSoup(text, 'html.parser').get_text()\<close>, and NLTK's \<open>word_tokenize\<close> and
  \<open>WordNetLemmatizer.lemmatize\<close>.
\<close>

record libs =
  get_text :: "string \<Rightarrow> string"
  word_tokenize :: "string \<Rightarrow> string list"
  lemmatize :: "string \<Rightarrow> string"

datatype py_value =
    PyStr string
  | PyNone
  | PyBool bool
  | PyInt int
  | PyBytes "char list"
  | PyList "py_value list"

definition remove_html_tags :: "libs \<Rightarrow> string \<Rightarrow> string" where
  "remove_html_tags L text = get_text L text"

definition tokenize_and_lemmatize :: "libs \<Rightarrow> string \<Rightarrow> string" where
  "tokenize_and_lemmatize L text =
     (let tokens = word_tokenize L text;
          lemmas = map (lemmatize L) tokens
      in str_join '' '' lemmas)"

fun preprocess_text :: "libs \<Rightarrow> py_value \<Rightarrow> bool \<Rightarrow> string" where
  "preprocess_text L (PyStr text) apply_lemmatization =
     (let text1 = lower text;
          text2 = remove_urls text1;
          text3 = remove_html_tags L text2;
          text4 = remove_punctuation text3;
          text5 = (if apply_lemmatization then tokenize_and_lemmatize L text4 else text4)
      in strip text5)"
| "preprocess_text L _ apply_lemmatization = []"

section \<open>The transcript parsers\<close>

text \<open>A file object is modelled by its content: the callers pass a fresh \<open>StringIO\<close>.\<close>

fun txt_loop :: "libs \<Rightarrow> bool \<Rightarrow> string list \<Rightarrow> string list \<Rightarrow> string list" where
  "txt_loop L f [] utterances = utterances"
| "txt_loop L f (line # rest) utterances =
     (let cleaned_line = preprocess_text L (PyStr (strip line)) f
      in txt_loop L f rest
           (if cleaned_line \<noteq> [] then utterances @ [cleaned_line] else utterances))"

definition parse_txt_transcript :: "libs \<Rightarrow> string \<Rightarrow> bool \<Rightarrow> string list" where
  "parse_txt_transcript L content f = txt_loop L f (iter_lines content) []"

definition flush_utterance :: "libs \<Rightarrow> bool \<Rightarrow> string list \<Rightarrow> string list \<Rightarrow> string list" where
  \<comment> \<open>the body of \<open>if current_utterance_lines:\<close>, in the loop and after it\<close>
  "flush_utterance L f utterances current =
     (if current \<noteq> [] then
        (let combined_utterance = str_join '' '' current;
             cleaned_utterance = preprocess_text L (PyStr combined_utterance) f
         in if cleaned_utterance \<noteq> [] then utterances @ [cleaned_utterance] else utterances)
      else utterances)"

fun srt_loop ::
  "libs \<Rightarrow> bool \<Rightarrow> string list \<Rightarrow> string list \<Rightarrow> string list \<Rightarrow> string list \<times> string list"
where
  "srt_loop L f [] utterances current = (utterances, current)"
| "srt_loop L f (raw # rest) utterances current =
     (let line = strip raw in
      if line = [] then
        (if current \<noteq> [] then srt_loop L f rest (flush_utterance L f utterances current) []
         else srt_loop L f rest utterances current)
      else if is_index_line line then srt_loop L f rest utterances current
      else if is_timestamp_line line then srt_loop L f rest utterances current
      else srt_loop L f rest utterances (current @ [line]))"

definition parse_srt_transcript :: "libs \<Rightarrow> string \<Rightarrow> bool \<Rightarrow> string list" where
  "parse_srt_transcript L content f =
     (let lines = str_split content NL [];
          (utterances, current) = srt_loop L f lines [] []
      in flush_utterance L f utterances current)"

datatype error = ValueError string | OverflowError string

definition parse_transcript_data :: "libs \<Rightarrow> string \<Rightarrow> string \<Rightarrow> bool \<Rightarrow> error + string list" where
  "parse_transcript_data L content file_type f =
     (if file_type = ''txt'' then Inr (parse_txt_transcript L content f)
      else if file_type = ''srt'' then Inr (parse_srt_transcript L content f)
      else Inl (ValueError (''Unsupported transcript file type: '' @ file_type @
                            ''. Only TXT and SRT are supported.'')))"

section \<open>The completion client\<close>

text \<open>
  One pass through the \<open>try\<close> body, as the client sees it: \<open>generate_content\<close> returns
  and \<open>response.text\<close> is read (\<open>Text\<close>; the empty string when the response has no
  text), or an exception leaves the body: \<open>ResourceExhausted\<close>, or any other one (among
  them the \<open>ValueError\<close> that reading the text of a blocked response raises). The
  exceptions carry \<open>str(e)\<close>. The service is a step function on a state of its own.
  The world records what the client does to its environment: the state of the service,
  the arguments of the calls of \<open>time.sleep\<close> in order, and the number of calls of
  \<open>generate_content\<close>. The delays are Python floats, modelled as reals: doubling a
  float is exact short of overflow, and the reals have no infinity and no NaN. An
  exception that \<open>time.sleep\<close> raises leaves the function: the call stands in the
  \<open>except\<close> clause. Next to the limit of its range a length can also be refused by the
  operating system (an \<open>OSError\<close> that depends on the platform and on its clock); this
  is not modelled, and the properties of the client are stated for delays far below
  the limit. The progress messages written with \<open>print\<close> are not modelled.
\<close>

datatype api_outcome =
    Text string
  | ResourceExhausted string
  | OtherException string

type_synonym 's service = "string \<Rightarrow> 's \<Rightarrow> api_outcome \<times> 's"

record 's world =
  svc :: 's
  sleeps :: "real list"
  calls :: nat

definition time_sleep :: "real \<Rightarrow> 's world \<Rightarrow> error + 's world" where
  \<comment> \<open>\<open>time.sleep(secs)\<close>, as CPython 3.11 checks its argument: the length is converted
      to a 64-bit count of nanoseconds, and \<open>OverflowError\<close> is raised when the product
      \<open>secs * 1e9\<close>, rounded to a double, is outside that range (doubles are 1024 apart
      just below \<open>2^63\<close> and 2048 apart just beyond \<open>-2^63\<close>, so the rounded product is
      below \<open>2^63\<close> exactly when the product is below \<open>2^63 - 512\<close>, and at least \<open>-2^63\<close>
      exactly when the product is at least \<open>-2^63 - 1024\<close>); then \<open>ValueError\<close> is raised
      on a negative length\<close>
  "time_sleep secs w =
     (if secs * 10 ^ 9 < - (2 ^ 63) - 1024 \<or> 2 ^ 63 - 512 \<le> secs * 10 ^ 9
      then Inl (OverflowError ''timestamp out of range for platform time_t'')
      else if secs < 0 then Inl (ValueError ''sleep length must be non-negative'')
      else Inr (w\<lparr>sleeps := sleeps w @ [secs]\<rparr>))"

definition generate_content :: "'s service \<Rightarrow> string \<Rightarrow> 's world \<Rightarrow> api_outcome \<times> 's world" where
  "generate_content gen prompt w =
     (case gen prompt (svc w) of
        (out, s') \<Rightarrow> (out, w\<lparr>svc := s', calls := Suc (calls w)\<rparr>))"

function retry_loop ::
  "'s service \<Rightarrow> string \<Rightarrow> int \<Rightarrow> int \<Rightarrow> real \<Rightarrow> 's world \<Rightarrow> (error + string) \<times> 's world"
where
  "retry_loop gen prompt max_retries retries delay w =
     (if retries < max_retries then
        (case generate_content gen prompt w of
           (Text t, w') \<Rightarrow>
             (if t \<noteq> [] then (Inr (strip t), w')
              else (Inr ''AI response was empty or blocked, possibly due to safety settings.'', w'))
         | (ResourceExhausted e, w') \<Rightarrow>
             (if retries + 1 < max_retries then
                (case time_sleep delay w' of
                   Inl err \<Rightarrow> (Inl err, w')
                 | Inr w'' \<Rightarrow> retry_loop gen prompt max_retries (retries + 1) (delay * 2) w'')
              else
                (Inr (''Failed to get response after '' @ str_int max_retries @
                      '' retries due to quota/rate limit: '' @ e), w'))
         | (OtherException e, w') \<Rightarrow>
             (Inr (''An unexpected API error occurred: '' @ e), w'))
      else (Inr ''Failed to get response after multiple retries (unknown reason).'', w))"
  by pat_completeness auto
termination
  by (relation "measure (\<lambda>(gen, prompt, max_retries, retries, delay, w). nat (max_retries - retries))")
    auto

definition make_gemini_call_with_retry ::
  "string \<Rightarrow> 's service \<Rightarrow> int \<Rightarrow> real \<Rightarrow> 's world \<Rightarrow> (error + string) \<times> 's world"
where
  "make_gemini_call_with_retry prompt gen max_retries initial_delay w =
     retry_loop gen prompt max_retries 0 initial_delay w"

section \<open>The analysis functions\<close>

definition summary_prompt :: "string \<Rightarrow> string" where
  "summary_prompt full_transcript_text =
     [NL] @ ''    You are an AI assistant specialized in summarizing meeting transcripts.'' @
     [NL] @ ''    Read the following meeting transcript and provide a concise, high-level summary.'' @
     [NL] @ ''    Focus on the main topics discussed, key outcomes, and overall purpose of the meeting.'' @
     [NL, NL] @ ''    Meeting Transcript:'' @
     [NL] @ ''    '' @ full_transcript_text @
     [NL, NL] @ ''    Summary:'' @
     [NL] @ ''    ''"

definition action_items_prompt :: "string \<Rightarrow> string" where
  "action_items_prompt full_transcript_text =
     [NL] @ ''    From the following meeting transcript, identify all action items, tasks, or follow-up activities.'' @
     [NL] @ ''    For each action item, state what needs to be done, who is responsible (if mentioned), and any deadlines (if mentioned).'' @
     [NL] @ ''    List each action item on a new line, starting with a dash '' @ [DQ] @ ''- '' @ [DQ] @
            ''. If no action items are present, state '' @ [DQ] @ ''No action items identified.'' @ [DQ] @
     [NL, NL] @ ''    Meeting Transcript:'' @
     [NL] @ ''    '' @ full_transcript_text @
     [NL, NL] @ ''    Action Items:'' @
     [NL] @ ''    ''"

definition key_decisions_prompt :: "string \<Rightarrow> string" where
  "key_decisions_prompt full_transcript_text =
     [NL] @ ''    Review the following meeting transcript and identify all significant decisions that were made.'' @
     [NL] @ ''    List each key decision on a new line, starting with a dash '' @ [DQ] @ ''- '' @ [DQ] @
            ''. If no decisions are present, state '' @ [DQ] @ ''No key decisions identified.'' @ [DQ] @
     [NL, NL] @ ''    Meeting Transcript:'' @
     [NL] @ ''    '' @ full_transcript_text @
     [NL, NL] @ ''    Key Decisions:'' @
     [NL] @ ''    ''"

definition bullet_items :: "string \<Rightarrow> string list" where
  \<comment> \<open>\<open>[item.strip() for item in raw_response.split('- ') if item.strip()]\<close>\<close>
  "bullet_items raw_response =
     [strip item. item \<leftarrow> str_split raw_response CHR ''-'' '' '', strip item \<noteq> []]"

definition get_meeting_summary ::
  "'s service \<Rightarrow> string \<Rightarrow> 's world \<Rightarrow> (error + string) \<times> 's world"
where
  "get_meeting_summary gemini_model full_transcript_text w =
     make_gemini_call_with_retry (summary_prompt full_transcript_text) gemini_model 7 1.0 w"

definition extract_action_items ::
  "'s service \<Rightarrow> string \<Rightarrow> 's world \<Rightarrow> (error + string list) \<times> 's world"
where
  "extract_action_items gemini_model full_transcript_text w =
     (case make_gemini_call_with_retry (action_items_prompt full_transcript_text) gemini_model 7 1.0 w of
        (Inl err, w') \<Rightarrow> (Inl err, w')
      | (Inr raw_response, w') \<Rightarrow>
          (if contains ''No action items identified'' raw_response then (Inr [], w')
           else (Inr (bullet_items raw_response), w')))"

definition highlight_key_decisions ::
  "'s service \<Rightarrow> string \<Rightarrow> 's world \<Rightarrow> (error + string list) \<times> 's world"
where
  "highlight_key_decisions gemini_model full_transcript_text w =
     (case make_gemini_call_with_retry (key_decisions_prompt full_transcript_text) gemini_model 7 1.0 w of
        (Inl err, w') \<Rightarrow> (Inl err, w')
      | (Inr raw_response, w') \<Rightarrow>
          (if contains ''No key decisions identified'' raw_response then (Inr [], w')
           else (Inr (bullet_items raw_response), w')))"

section \<open>Notions used to state the properties\<close>

definition svc_after :: "'s service \<Rightarrow> string \<Rightarrow> nat \<Rightarrow> 's \<Rightarrow> 's" where
  \<comment> \<open>the state of the service after \<open>k\<close> calls with the prompt\<close>
  "svc_after gen prompt k s = ((\<lambda>s. snd (gen prompt s)) ^^ k) s"

definition outcome_at :: "'s service \<Rightarrow> string \<Rightarrow> nat \<Rightarrow> 's \<Rightarrow> api_outcome" where
  \<comment> \<open>what attempt number \<open>k\<close> (counted from 0) meets\<close>
  "outcome_at gen prompt k s = fst (gen prompt (svc_after gen prompt k s))"

definition short_sleep :: "real \<Rightarrow> bool" where
  \<comment> \<open>a sleep length far below every limit of \<open>time.sleep\<close>: at most a million seconds\<close>
  "short_sleep secs = (0 \<le> secs \<and> secs \<le> 1000000)"

definition backoff_delays :: "real \<Rightarrow> nat \<Rightarrow> real list" where
  \<comment> \<open>the first \<open>k\<close> delays of the exponential backoff\<close>
  "backoff_delays d k = map (\<lambda>i. d * 2 ^ i) [0..<k]"


definition block_utterance :: "libs \<Rightarrow> bool \<Rightarrow> string list \<Rightarrow> string list" where
  \<comment> \<open>what one block contributes: its lines other than indices and timestamps, joined
      with single spaces and normalized, when there is such a line and the normalized
      text is not empty\<close>
  "block_utterance L f block =
     (let kept = filter (\<lambda>l. \<not> is_index_line l \<and> \<not> is_timestamp_line l) block in
      if kept = [] then []
      else (let u = preprocess_text L (PyStr (str_join '' '' kept)) f
            in if u = [] then [] else [u]))"


definition keeps_plain_text :: "(string \<Rightarrow> string) \<Rightarrow> bool" where
  \<comment> \<open>what is used of BeautifulSoup's \<open>get_text\<close>: text without \<open><\<close> and \<open>&\<close> holds no
      markup and comes back unchanged, except that whitespace-only text may come back
      as other whitespace-only text (the parser collapses it)\<close>
  "keeps_plain_text h =
     (\<forall>t. CHR ''<'' \<notin> set t \<and> CHR ''&'' \<notin> set t \<longrightarrow>
          (if list_all is_space t then list_all is_space (h t) else h t = t))"

definition stripped :: "string \<Rightarrow> bool" where
  \<comment> \<open>no whitespace at either end\<close>
  "stripped t = (t = [] \<or> (\<not> is_space (hd t) \<and> \<not> is_space (last t)))"

definition trims_to :: "string \<Rightarrow> string \<Rightarrow> bool" where
  \<comment> \<open>\<open>item\<close> is \<open>fragment\<close> without the whitespace at its two ends\<close>
  "trims_to fragment item =
     (stripped item \<and>
      (\<exists>lead trail. fragment = lead @ item @ trail \<and>
                     list_all is_space lead \<and> list_all is_space trail))"

definition text_libs :: libs where
  \<comment> \<open>the libraries as they act on the markup-free examples below: text comes back
      unchanged; the examples do not lemmatize\<close>
  "text_libs = \<lparr>get_text = (\<lambda>t. t), word_tokenize = (\<lambda>t. [t]), lemmatize = (\<lambda>w. w)\<rparr>"

section \<open>Auxiliary facts about strings\<close>

lemma contains_prefix: "prefix sub s \<Longrightarrow> contains sub s"
  by (cases s) auto

lemma contains_append: "contains sub (pre @ sub @ post)"
proof (induction pre)
  case Nil
  show ?case by (simp add: contains_prefix)
next
  case (Cons c pre)
  then show ?case by simp
qed

lemma strip_stripped: "stripped (strip x)"
proof -
  let ?y = "dropWhile is_space x"
  let ?w = "dropWhile is_space (rev ?y)"
  have s: "strip x = rev ?w"
    by (simp add: strip_def lstrip_def rstrip_def)
  show ?thesis
  proof (cases "?w = []")
    case True
    with s show ?thesis by (simp add: stripped_def)
  next
    case False
    have y: "?y \<noteq> []"
    proof
      assume "?y = []"
      then have "?w = []" by (simp only: rev.simps dropWhile.simps)
      with False show False by (rule notE)
    qed
    have "rev ?y = takeWhile is_space (rev ?y) @ ?w"
      by simp
    then have "last (rev ?y) = last ?w"
      using False by (metis last_appendR)
    then have "last ?w = hd ?y"
      using y by (simp add: last_rev)
    moreover have "\<not> is_space (hd ?y)"
      using y by (rule hd_dropWhile)
    moreover have "\<not> is_space (hd ?w)"
      using False by (rule hd_dropWhile)
    ultimately show ?thesis
      using False s by (simp add: stripped_def hd_rev last_rev)
  qed
qed

lemma stripped_strip: "stripped t \<Longrightarrow> strip t = t"
proof -
  assume st: "stripped t"
  then have "dropWhile is_space t = t"
    by (auto simp: stripped_def dropWhile_eq_self_iff)
  moreover have "dropWhile is_space (rev t) = rev t"
    using st by (auto simp: stripped_def dropWhile_eq_self_iff hd_rev)
  ultimately show ?thesis
    by (simp add: strip_def lstrip_def rstrip_def)
qed

lemma stripped_blank: "stripped t \<Longrightarrow> list_all is_space t \<Longrightarrow> t = []"
  by (cases t) (auto simp: stripped_def)

lemma strip_blank: "list_all is_space t \<Longrightarrow> strip t = []"
proof -
  assume "list_all is_space t"
  then have "dropWhile is_space t = []"
    by (induction t) auto
  then show ?thesis
    by (simp only: strip_def lstrip_def rstrip_def rev.simps dropWhile.simps)
qed

lemma set_strip: "set (strip t) \<subseteq> set t"
  by (auto simp: strip_def lstrip_def rstrip_def dest!: set_dropWhileD)

lemma strip_trims: "trims_to fragment (strip fragment)"
proof -
  let ?y = "dropWhile is_space fragment"
  let ?lead = "takeWhile is_space fragment"
  let ?trail = "rev (takeWhile is_space (rev ?y))"
  have "rev (dropWhile is_space (rev ?y)) @ rev (takeWhile is_space (rev ?y)) =
          rev (takeWhile is_space (rev ?y) @ dropWhile is_space (rev ?y))"
    by (simp only: rev_append)
  also have "\<dots> = rev (rev ?y)"
    by (simp only: takeWhile_dropWhile_id)
  also have "\<dots> = ?y"
    by (simp only: rev_rev_ident)
  finally have "strip fragment @ ?trail = ?y"
    by (simp only: strip_def lstrip_def rstrip_def)
  then have "?y = strip fragment @ ?trail"
    by (rule sym)
  moreover have "fragment = ?lead @ ?y"
    by simp
  ultimately have "fragment = ?lead @ strip fragment @ ?trail"
    by simp
  moreover have "list_all is_space ?lead"
    by (auto simp: list_all_iff dest: set_takeWhileD)
  moreover have "list_all is_space ?trail"
    by (auto simp: list_all_iff dest: set_takeWhileD)
  ultimately show ?thesis
    unfolding trims_to_def using strip_stripped by blast
qed

section \<open>The parser dispatcher\<close>

text \<open>
  C1. Claimed: a file-type tag is matched case-insensitively, so that \<open>"TXT"\<close> reaches the
  plain-text parser. The dispatcher compares the tag with \<open>'txt'\<close> and \<open>'srt'\<close> as it
  is given (its caller lower-cases the file extension first): \<open>"TXT"\<close> is rejected.
\<close>

theorem dispatcher_upper_case_counterexample:
  "\<not> (\<forall>L content f. \<exists>utterances. parse_transcript_data L content ''TXT'' f = Inr utterances)"
  by (simp add: parse_transcript_data_def)

text \<open>
  C1, as the code has it: for every content and lemmatization flag, the tag \<open>txt\<close> gives
  the result of the plain-text parser, the tag \<open>srt\<close> that of the subtitle parser, and
  every other tag (compared exactly, so also \<open>TXT\<close> and \<open>csv\<close>) fails with a
  \<open>ValueError\<close> whose message contains the offending tag.
\<close>

theorem dispatcher_exact_tags:
  "(file_type = ''txt'' \<longrightarrow>
      parse_transcript_data L content file_type f = Inr (parse_txt_transcript L content f)) \<and>
   (file_type = ''srt'' \<longrightarrow>
      parse_transcript_data L content file_type f = Inr (parse_srt_transcript L content f)) \<and>
   (file_type \<noteq> ''txt'' \<and> file_type \<noteq> ''srt'' \<longrightarrow>
      (\<exists>msg. parse_transcript_data L content file_type f = Inl (ValueError msg) \<and>
             contains file_type msg))"
proof -
  have "contains file_type
          (''Unsupported transcript file type: '' @ file_type @ ''. Only TXT and SRT are supported.'')"
    by (rule contains_append)
  then show ?thesis
    unfolding parse_transcript_data_def by auto
qed

theorem dispatcher_exact_tags_witness:
  "parse_transcript_data text_libs ''Hi.'' ''txt'' False =
     Inr (parse_txt_transcript text_libs ''Hi.'' False) \<and>
   (\<exists>msg. parse_transcript_data text_libs ''Hi.'' ''csv'' False = Inl (ValueError msg) \<and>
          contains ''csv'' msg)"
  using dispatcher_exact_tags [of "''txt''" text_libs "''Hi.''" False]
    dispatcher_exact_tags [of "''csv''" text_libs "''Hi.''" False]
  by simp

section \<open>The normalizer on values that are not strings\<close>

text \<open>
  C9. For every value that is not a string and either value of the lemmatization flag,
  \<open>preprocess_text\<close> returns the empty string; no library is called and nothing is
  raised.
\<close>

theorem preprocess_text_non_string:
  "(\<forall>s. v \<noteq> PyStr s) \<Longrightarrow> preprocess_text L v f = []"
  by (cases v) auto

theorem preprocess_text_non_string_witness:
  "(\<forall>s. PyInt 42 \<noteq> PyStr s) \<and> preprocess_text text_libs (PyInt 42) True = []"
  using preprocess_text_non_string [of "PyInt 42" text_libs True] by simp

section \<open>The retry loop\<close>

text \<open>
  C10. With \<open>max_retries \<le> 0\<close> the loop body never runs: the service is not called,
  nothing sleeps (the world is returned as it was), and the result is the fixed string
  of the last line of the function.
\<close>

theorem no_attempt_without_budget:
  "max_retries \<le> 0 \<Longrightarrow>
   make_gemini_call_with_retry prompt gen max_retries initial_delay w =
     (Inr ''Failed to get response after multiple retries (unknown reason).'', w)"
  by (simp add: make_gemini_call_with_retry_def)

theorem no_attempt_without_budget_witness:
  "(0::int) \<le> 0 \<and>
   make_gemini_call_with_retry ''p'' (\<lambda>p (n::nat). (Text ''hello'', Suc n)) 0 1
       \<lparr>svc = 0, sleeps = [], calls = 0\<rparr> =
     (Inr ''Failed to get response after multiple retries (unknown reason).'',
      \<lparr>svc = 0, sleeps = [], calls = 0\<rparr>)"
  using no_attempt_without_budget [of 0 "''p''" "\<lambda>p (n::nat). (Text ''hello'', Suc n)" 1
      "\<lparr>svc = 0, sleeps = [], calls = 0\<rparr>"]
  by simp

text \<open>The loop, one iteration at a time.\<close>

declare retry_loop.simps [simp del]

lemma retry_loop_text:
  assumes "retries < max_retries" and "gen prompt (svc w) = (Text t, s')"
  shows "retry_loop gen prompt max_retries retries delay w =
           (Inr (if t \<noteq> [] then strip t
                 else ''AI response was empty or blocked, possibly due to safety settings.''),
            w\<lparr>svc := s', calls := Suc (calls w)\<rparr>)"
  using assms by (subst retry_loop.simps) (simp add: generate_content_def)

lemma retry_loop_other:
  assumes "retries < max_retries" and "gen prompt (svc w) = (OtherException e, s')"
  shows "retry_loop gen prompt max_retries retries delay w =
           (Inr (''An unexpected API error occurred: '' @ e), w\<lparr>svc := s', calls := Suc (calls w)\<rparr>)"
  using assms by (subst retry_loop.simps) (simp add: generate_content_def)

lemma time_sleep_short:
  "short_sleep secs \<Longrightarrow> time_sleep secs w = Inr (w\<lparr>sleeps := sleeps w @ [secs]\<rparr>)"
  by (simp add: time_sleep_def short_sleep_def)

lemma retry_loop_backoff:
  assumes "retries + 1 < max_retries" and "gen prompt (svc w) = (ResourceExhausted e, s')"
    and "short_sleep delay"
  shows "retry_loop gen prompt max_retries retries delay w =
           retry_loop gen prompt max_retries (retries + 1) (delay * 2)
             (w\<lparr>svc := s', calls := Suc (calls w), sleeps := sleeps w @ [delay]\<rparr>)"
  using assms by (subst retry_loop.simps) (simp add: generate_content_def time_sleep_short)

lemma retry_loop_sleep_raises:
  assumes "retries + 1 < max_retries" and "gen prompt (svc w) = (ResourceExhausted e, s')"
    and "time_sleep delay (w\<lparr>svc := s', calls := Suc (calls w)\<rparr>) = Inl err"
  shows "retry_loop gen prompt max_retries retries delay w =
           (Inl err, w\<lparr>svc := s', calls := Suc (calls w)\<rparr>)"
  using assms by (subst retry_loop.simps) (simp add: generate_content_def)

lemma retry_loop_give_up:
  assumes "retries < max_retries" and "\<not> retries + 1 < max_retries"
    and "gen prompt (svc w) = (ResourceExhausted e, s')"
  shows "retry_loop gen prompt max_retries retries delay w =
           (Inr (''Failed to get response after '' @ str_int max_retries @
                 '' retries due to quota/rate limit: '' @ e),
            w\<lparr>svc := s', calls := Suc (calls w)\<rparr>)"
  using assms by (subst retry_loop.simps) (simp add: generate_content_def)

lemma svc_after_Suc: "svc_after gen prompt (Suc k) s = svc_after gen prompt k (snd (gen prompt s))"
  using funpow_swap1 [of "\<lambda>s. snd (gen prompt s)" k s] by (simp add: svc_after_def)

lemma outcome_at_Suc: "outcome_at gen prompt (Suc k) s = outcome_at gen prompt k (snd (gen prompt s))"
  by (simp add: outcome_at_def svc_after_Suc)

lemma backoff_delays_Suc: "backoff_delays d (Suc k) = d # backoff_delays (d * 2) k"
proof -
  have "map (\<lambda>i. d * 2 ^ i) [0..<Suc k] = d # map (\<lambda>i. d * 2 ^ Suc i) [0..<k]"
    by (simp only: upt_conv_Cons [of 0 "Suc k"] map_Suc_upt [symmetric] list.map map_map o_def)
      simp
  then show ?thesis
    by (simp add: backoff_delays_def mult.assoc)
qed

lemma rate_limited_prefix:
  assumes "\<forall>i<k. \<exists>e. outcome_at gen prompt i (svc w) = ResourceExhausted e"
    and "retries + int k < max_retries"
    and "\<forall>d\<in>set (backoff_delays delay k). short_sleep d"
  shows "retry_loop gen prompt max_retries retries delay w =
           retry_loop gen prompt max_retries (retries + int k) (delay * 2 ^ k)
             (w\<lparr>svc := svc_after gen prompt k (svc w),
                calls := calls w + k,
                sleeps := sleeps w @ backoff_delays delay k\<rparr>)"
  using assms
proof (induction k arbitrary: retries delay w)
  case 0
  then show ?case
    by (simp add: svc_after_def backoff_delays_def)
next
  case (Suc k)
  from Suc.prems(1) obtain e where "outcome_at gen prompt 0 (svc w) = ResourceExhausted e"
    by blast
  then obtain s' where first: "gen prompt (svc w) = (ResourceExhausted e, s')"
    by (cases "gen prompt (svc w)") (simp add: outcome_at_def svc_after_def)
  let ?w' = "w\<lparr>svc := s', calls := Suc (calls w), sleeps := sleeps w @ [delay]\<rparr>"
  have step: "retry_loop gen prompt max_retries retries delay w =
                retry_loop gen prompt max_retries (retries + 1) (delay * 2) ?w'"
    using Suc.prems(2,3) first by (intro retry_loop_backoff) (auto simp: backoff_delays_Suc)
  have rest: "\<forall>i<k. \<exists>e. outcome_at gen prompt i (svc ?w') = ResourceExhausted e"
  proof (intro allI impI)
    fix i assume "i < k"
    then have "\<exists>e. outcome_at gen prompt (Suc i) (svc w) = ResourceExhausted e"
      using Suc.prems(1) by simp
    then show "\<exists>e. outcome_at gen prompt i (svc ?w') = ResourceExhausted e"
      by (simp add: outcome_at_Suc first)
  qed
  have "retry_loop gen prompt max_retries (retries + 1) (delay * 2) ?w' =
          retry_loop gen prompt max_retries (retries + 1 + int k) (delay * 2 * 2 ^ k)
            (?w'\<lparr>svc := svc_after gen prompt k (svc ?w'),
                  calls := calls ?w' + k,
                  sleeps := sleeps ?w' @ backoff_delays (delay * 2) k\<rparr>)"
    using rest Suc.prems(2,3) by (intro Suc.IH) (auto simp: backoff_delays_Suc)
  with step show ?case
    by (simp add: svc_after_Suc first backoff_delays_Suc algebra_simps)
qed


lemma svc_after_step: "snd (gen prompt (svc_after gen prompt k s)) = svc_after gen prompt (Suc k) s"
  by (simp add: svc_after_def)

text \<open>
  What the bound on the delays is for: a delay that \<open>time.sleep\<close> refuses makes the
  client raise. With an initial delay of \<open>1e10\<close> seconds the first backoff raises
  \<open>OverflowError\<close>, after one call of the service.
\<close>

lemma long_delay_raises:
  "make_gemini_call_with_retry ''Summarize.'' (\<lambda>p (n::nat). (ResourceExhausted ''429 quota'', Suc n))
       2 10000000000 \<lparr>svc = 0, sleeps = [], calls = 0\<rparr> =
     (Inl (OverflowError ''timestamp out of range for platform time_t''),
      \<lparr>svc = 1, sleeps = [], calls = 1\<rparr>)"
  unfolding make_gemini_call_with_retry_def
  by (subst retry_loop_sleep_raises
        [where e = "''429 quota''" and s' = 1
           and err = "OverflowError ''timestamp out of range for platform time_t''"])
     (simp_all add: time_sleep_def)

text \<open>
  C3. For every prompt and service: when the first two attempts raise
  \<open>ResourceExhausted\<close> and the third returns a non-empty text, the client called with
  the defaults (\<open>max_retries = 7\<close>, \<open>initial_delay = 1.0\<close>) returns that text stripped,
  after three calls of the service and exactly two sleeps, of 1.0 and then 2.0.
\<close>

theorem two_rate_limits_then_success:
  assumes "gen prompt (svc w) = (ResourceExhausted e1, s1)"
    and "gen prompt s1 = (ResourceExhausted e2, s2)"
    and "gen prompt s2 = (Text t, s3)"
    and "t \<noteq> []"
  shows "make_gemini_call_with_retry prompt gen 7 1.0 w =
           (Inr (strip t), w\<lparr>svc := s3, calls := calls w + 3, sleeps := sleeps w @ [1.0, 2.0]\<rparr>)"
proof -
  let ?w1 = "w\<lparr>svc := s1, calls := Suc (calls w), sleeps := sleeps w @ [1]\<rparr>"
  let ?w2 = "?w1\<lparr>svc := s2, calls := Suc (calls ?w1), sleeps := sleeps ?w1 @ [2]\<rparr>"
  have "retry_loop gen prompt 7 0 1 w = retry_loop gen prompt 7 1 2 ?w1"
    using retry_loop_backoff [of 0 7 gen prompt w e1 s1 1] assms(1)
    by (simp add: short_sleep_def)
  also have "\<dots> = retry_loop gen prompt 7 2 4 ?w2"
    using retry_loop_backoff [of 1 7 gen prompt ?w1 e2 s2 2] assms(2)
    by (simp add: short_sleep_def)
  also have "\<dots> = (Inr (strip t), ?w2\<lparr>svc := s3, calls := Suc (calls ?w2)\<rparr>)"
    using retry_loop_text [of 2 7 gen prompt ?w2 t s3 4] assms(3,4) by simp
  finally show ?thesis
    by (simp add: make_gemini_call_with_retry_def)
qed

theorem two_rate_limits_then_success_witness:
  "make_gemini_call_with_retry ''Summarize.''
       (\<lambda>p (n::nat). (if n < 2 then ResourceExhausted ''429 quota'' else Text '' Done. '', Suc n))
       7 1.0 \<lparr>svc = 0, sleeps = [], calls = 0\<rparr> =
     (Inr ''Done.'', \<lparr>svc = 3, sleeps = [1.0, 2.0], calls = 3\<rparr>)"
proof -
  have "strip '' Done. '' = ''Done.''"
    by code_simp
  then show ?thesis
    using two_rate_limits_then_success
      [of "\<lambda>p (n::nat). (if n < 2 then ResourceExhausted ''429 quota'' else Text '' Done. '', Suc n)"
          "''Summarize.''" "\<lparr>svc = 0, sleeps = [], calls = 0\<rparr>" "''429 quota''" 1 "''429 quota''" 2
          "'' Done. ''" 3]
    by simp
qed

text \<open>
  C4. For every prompt and service: when every attempt raises \<open>ResourceExhausted\<close>, the
  client with a positive \<open>max_retries\<close>, and with backoff delays that are all short (from
  0 to a million seconds, as those of the defaults are: 1, 2, 4, 8, 16 and 32), calls the
  service exactly \<open>max_retries\<close> times, sleeps between the attempts with doubling
  delays, and returns (it does not raise) the string "Failed to get response after
  \<open>max_retries\<close> retries due to quota/rate limit: " followed by the text of the last
  error.
\<close>

theorem always_rate_limited:
  assumes "\<forall>i<nat max_retries. \<exists>e. outcome_at gen prompt i (svc w) = ResourceExhausted e"
    and "0 < max_retries"
    and "\<forall>d\<in>set (backoff_delays initial_delay (nat max_retries - 1)). short_sleep d"
  shows "\<exists>e. outcome_at gen prompt (nat max_retries - 1) (svc w) = ResourceExhausted e \<and>
             make_gemini_call_with_retry prompt gen max_retries initial_delay w =
               (Inr (''Failed to get response after '' @ str_int max_retries @
                     '' retries due to quota/rate limit: '' @ e),
                w\<lparr>svc := svc_after gen prompt (nat max_retries) (svc w),
                   calls := calls w + nat max_retries,
                   sleeps := sleeps w @ backoff_delays initial_delay (nat max_retries - 1)\<rparr>)"
proof -
  define k where "k = nat max_retries - 1"
  have k: "int k = max_retries - 1" "Suc k = nat max_retries"
    using assms(2) by (simp_all add: k_def)
  let ?wk = "w\<lparr>svc := svc_after gen prompt k (svc w), calls := calls w + k,
                 sleeps := sleeps w @ backoff_delays initial_delay k\<rparr>"
  obtain e where e: "outcome_at gen prompt k (svc w) = ResourceExhausted e"
    using assms(1) k(2) by (metis lessI)
  have last: "gen prompt (svc ?wk) = (ResourceExhausted e, svc_after gen prompt (Suc k) (svc w))"
    using e by (simp add: outcome_at_def svc_after_step [symmetric] prod_eq_iff)
  have "retry_loop gen prompt max_retries 0 initial_delay w =
          retry_loop gen prompt max_retries (0 + int k) (initial_delay * 2 ^ k) ?wk"
    using assms k by (intro rate_limited_prefix) (auto simp: k_def)
  also have "\<dots> = (Inr (''Failed to get response after '' @ str_int max_retries @
                          '' retries due to quota/rate limit: '' @ e),
                     ?wk\<lparr>svc := svc_after gen prompt (Suc k) (svc w), calls := Suc (calls ?wk)\<rparr>)"
    using k(1) last by (intro retry_loop_give_up) auto
  finally have "make_gemini_call_with_retry prompt gen max_retries initial_delay w =
               (Inr (''Failed to get response after '' @ str_int max_retries @
                     '' retries due to quota/rate limit: '' @ e),
                w\<lparr>svc := svc_after gen prompt (nat max_retries) (svc w),
                   calls := calls w + nat max_retries,
                   sleeps := sleeps w @ backoff_delays initial_delay (nat max_retries - 1)\<rparr>)"
    by (simp add: make_gemini_call_with_retry_def k(2) [symmetric])
  with e show ?thesis
    unfolding k_def by blast
qed

theorem always_rate_limited_witness:
  "make_gemini_call_with_retry ''Summarize.'' (\<lambda>p (n::nat). (ResourceExhausted ''429 quota'', Suc n))
       7 1.0 \<lparr>svc = 0, sleeps = [], calls = 0\<rparr> =
     (Inr ''Failed to get response after 7 retries due to quota/rate limit: 429 quota'',
      \<lparr>svc = 7, sleeps = [1, 2, 4, 8, 16, 32], calls = 7\<rparr>)"
proof -
  let ?gen = "\<lambda>p (n::nat). (ResourceExhausted ''429 quota'', Suc n)"
  have all: "\<forall>i<nat 7. \<exists>e. outcome_at ?gen ''Summarize.'' i (svc \<lparr>svc = 0, sleeps = [], calls = 0\<rparr>) =
                 ResourceExhausted e"
    by (simp add: outcome_at_def)
  have s: "svc_after ?gen ''Summarize.'' 7 0 = 7"
    by (simp add: svc_after_def eval_nat_numeral)
  have d: "backoff_delays 1 6 = [1, 2, 4, 8, 16, 32]"
    by (simp add: backoff_delays_def upt_rec)
  have n: "str_int 7 = ''7''"
    by code_simp
  show ?thesis
    using always_rate_limited [OF all, of "1.0"] s d n
    by (simp add: outcome_at_def short_sleep_def)
qed

text \<open>
  C8. For every prompt and service: when an attempt (attempt \<open>k\<close>, counted from 0, after
  \<open>k\<close> rate-limited ones whose backoff delays were all short, from 0 to a million
  seconds) raises an exception other than \<open>ResourceExhausted\<close>, the client returns
  "An unexpected API error occurred: " followed by the text of the exception at once:
  the service has been called \<open>k + 1\<close> times and no more, and the only sleeps are the
  \<open>k\<close> ones that followed the rate-limited attempts. On the first attempt (\<open>k = 0\<close>)
  there is no condition on the delay.
\<close>

theorem other_exception_no_retry:
  assumes "\<forall>i<k. \<exists>e. outcome_at gen prompt i (svc w) = ResourceExhausted e"
    and "outcome_at gen prompt k (svc w) = OtherException e"
    and "int k < max_retries"
    and "\<forall>d\<in>set (backoff_delays initial_delay k). short_sleep d"
  shows "make_gemini_call_with_retry prompt gen max_retries initial_delay w =
           (Inr (''An unexpected API error occurred: '' @ e),
            w\<lparr>svc := svc_after gen prompt (Suc k) (svc w),
               calls := calls w + Suc k,
               sleeps := sleeps w @ backoff_delays initial_delay k\<rparr>)"
proof -
  let ?wk = "w\<lparr>svc := svc_after gen prompt k (svc w), calls := calls w + k,
                 sleeps := sleeps w @ backoff_delays initial_delay k\<rparr>"
  have now: "gen prompt (svc ?wk) = (OtherException e, svc_after gen prompt (Suc k) (svc w))"
    using assms(2) by (simp add: outcome_at_def svc_after_step [symmetric] prod_eq_iff)
  have "retry_loop gen prompt max_retries 0 initial_delay w =
          retry_loop gen prompt max_retries (0 + int k) (initial_delay * 2 ^ k) ?wk"
    using assms by (intro rate_limited_prefix) auto
  also have "\<dots> = (Inr (''An unexpected API error occurred: '' @ e),
                     ?wk\<lparr>svc := svc_after gen prompt (Suc k) (svc w), calls := Suc (calls ?wk)\<rparr>)"
    using assms(3) now by (intro retry_loop_other) auto
  finally show ?thesis
    by (simp add: make_gemini_call_with_retry_def)
qed

theorem other_exception_no_retry_witness:
  "make_gemini_call_with_retry ''Summarize.''
       (\<lambda>p (n::nat). (if n < 1 then ResourceExhausted ''429 quota'' else OtherException ''503 unavailable'', Suc n))
       7 1.0 \<lparr>svc = 0, sleeps = [], calls = 0\<rparr> =
     (Inr ''An unexpected API error occurred: 503 unavailable'',
      \<lparr>svc = 2, sleeps = [1], calls = 2\<rparr>)"
proof -
  let ?gen = "\<lambda>p (n::nat). (if n < 1 then ResourceExhausted ''429 quota'' else OtherException ''503 unavailable'', Suc n)"
  let ?w = "\<lparr>svc = 0::nat, sleeps = [], calls = 0\<rparr>"
  have a: "\<forall>i<1. \<exists>e. outcome_at ?gen ''Summarize.'' i (svc ?w) = ResourceExhausted e"
    by (simp add: outcome_at_def svc_after_def)
  have b: "outcome_at ?gen ''Summarize.'' 1 (svc ?w) = OtherException ''503 unavailable''"
    by (simp add: outcome_at_def svc_after_def)
  show ?thesis
    using other_exception_no_retry [OF a b, of 7 "1.0"]
    by (simp add: svc_after_def backoff_delays_def short_sleep_def)
qed

section \<open>Splitting on a separator\<close>

declare split_from.simps [simp del]

lemma split_from_None: "str_find (d # ds) s = None \<Longrightarrow> split_from d ds s = [s]"
  by (subst split_from.simps) simp

lemma split_from_Some:
  "str_find (d # ds) s = Some j \<Longrightarrow>
   split_from d ds s = take j s # split_from d ds (drop (j + Suc (length ds)) s)"
  by (subst split_from.simps) simp

lemma str_find_Some:
  "str_find sub s = Some j \<Longrightarrow> prefix sub (drop j s)"
proof (induction s arbitrary: j)
  case Nil
  then show ?case by (simp split: if_splits)
next
  case (Cons c cs)
  then show ?case by (auto split: if_splits)
qed

lemma str_find_None: "str_find sub s = None \<Longrightarrow> \<not> contains sub s"
  by (induction s) (auto split: if_splits)

lemma str_find_first:
  "str_find sub s = Some j \<Longrightarrow> sub \<noteq> [] \<Longrightarrow> \<not> contains sub (take j s)"
proof (induction s arbitrary: j)
  case Nil
  then show ?case by simp
next
  case (Cons c cs)
  show ?case
  proof (cases "prefix sub (c # cs)")
    case True
    with Cons.prems show ?thesis by simp
  next
    case False
    with Cons.prems obtain j' where j': "str_find sub cs = Some j'" "j = Suc j'"
      by auto
    have "\<not> prefix sub (c # take j' cs)"
    proof
      assume "prefix sub (c # take j' cs)"
      moreover have "prefix (c # take j' cs) (c # cs)"
        by (simp add: take_is_prefix)
      ultimately show False
        using False prefix_order.trans by blast
    qed
    with Cons.IH [OF j'(1) Cons.prems(2)] j'(2) show ?thesis
      by simp
  qed
qed

lemma split_from_not_Nil: "split_from d ds s \<noteq> []"
  by (cases "str_find (d # ds) s") (simp_all add: split_from_None split_from_Some)

lemma str_join_Cons: "ps \<noteq> [] \<Longrightarrow> str_join sep (p # ps) = p @ sep @ str_join sep ps"
  by (cases ps) auto

lemma str_join_split_from: "str_join (d # ds) (split_from d ds s) = s"
proof (induction d ds s rule: split_from.induct)
  case (1 d ds s)
  show ?case
  proof (cases "str_find (d # ds) s")
    case None
    then show ?thesis by (simp add: split_from_None)
  next
    case (Some j)
    from str_find_Some [OF Some] obtain post where post: "drop j s = (d # ds) @ post"
      by (auto simp: prefix_def)
    then have "drop (j + Suc (length ds)) s = post"
      by (metis add.commute append_eq_conv_conj drop_drop length_Cons)
    moreover have "s = take j s @ drop j s"
      by simp
    ultimately have "take j s @ (d # ds) @ drop (j + Suc (length ds)) s = s"
      using post by metis
    with "1.IH" [OF Some] show ?thesis
      by (simp add: split_from_Some [OF Some] str_join_Cons split_from_not_Nil)
  qed
qed

lemma split_from_no_separator:
  "f \<in> set (split_from d ds s) \<Longrightarrow> \<not> contains (d # ds) f"
proof (induction d ds s rule: split_from.induct)
  case (1 d ds s)
  show ?case
  proof (cases "str_find (d # ds) s")
    case None
    with "1.prems" have "f = s"
      by (simp add: split_from_None)
    with None show ?thesis
      by (simp add: str_find_None)
  next
    case (Some j)
    with "1.prems" have "f = take j s \<or> f \<in> set (split_from d ds (drop (j + Suc (length ds)) s))"
      by (simp add: split_from_Some)
    then show ?thesis
      using "1.IH" [OF Some] str_find_first [OF Some] by auto
  qed
qed

section \<open>The analysis functions on a response\<close>

text \<open>With short delays the client returns a string: nothing is raised.\<close>

lemma retry_loop_returns:
  "\<forall>i<nat (max_retries - retries) - 1. short_sleep (delay * 2 ^ i) \<Longrightarrow>
   \<exists>r w'. retry_loop gen prompt max_retries retries delay w = (Inr r, w')"
proof (induction gen prompt max_retries retries delay w rule: retry_loop.induct)
  case (1 gen prompt max_retries retries delay w)
  show ?case
  proof (cases "retries < max_retries")
    case False
    then show ?thesis by (subst retry_loop.simps) simp
  next
    case True
    obtain out w' where g: "generate_content gen prompt w = (out, w')"
      by (cases "generate_content gen prompt w")
    show ?thesis
    proof (cases out)
      case (Text t)
      with True g show ?thesis by (subst retry_loop.simps) simp
    next
      case (OtherException e)
      with True g show ?thesis by (subst retry_loop.simps) simp
    next
      case (ResourceExhausted e)
      show ?thesis
      proof (cases "retries + 1 < max_retries")
        case False
        with True g ResourceExhausted show ?thesis by (subst retry_loop.simps) simp
      next
        case again: True
        let ?w'' = "w'\<lparr>sleeps := sleeps w' @ [delay]\<rparr>"
        have "0 < nat (max_retries - retries) - 1"
          using again by simp
        then have "short_sleep (delay * 2 ^ 0)"
          using "1.prems" by blast
        then have s: "time_sleep delay w' = Inr ?w''"
          by (simp add: time_sleep_short)
        have later: "\<forall>i<nat (max_retries - (retries + 1)) - 1. short_sleep (delay * 2 * 2 ^ i)"
        proof (intro allI impI)
          fix i
          assume "i < nat (max_retries - (retries + 1)) - 1"
          then have "Suc i < nat (max_retries - retries) - 1"
            by simp
          then have "short_sleep (delay * 2 ^ Suc i)"
            using "1.prems" by blast
          then show "short_sleep (delay * 2 * 2 ^ i)"
            by (simp add: mult.assoc)
        qed
        have g': "(ResourceExhausted e, w') = generate_content gen prompt w"
          using g ResourceExhausted by simp
        have "\<exists>r v. retry_loop gen prompt max_retries (retries + 1) (delay * 2) ?w'' = (Inr r, v)"
          using "1.IH" [OF True g' refl again s later] .
        with True again g ResourceExhausted s show ?thesis
          by (subst retry_loop.simps) simp
      qed
    qed
  qed
qed

lemma default_client_returns:
  "\<exists>raw w'. make_gemini_call_with_retry prompt gen 7 1.0 w = (Inr raw, w')"
proof -
  have "\<forall>i<nat (7 - 0) - 1. short_sleep (1 * 2 ^ i)"
  proof (intro allI impI)
    fix i :: nat
    assume "i < nat (7 - 0) - 1"
    then have "i \<le> 5"
      by simp
    then have "(2::real) ^ i \<le> 2 ^ 5"
      by (intro power_increasing) simp_all
    then show "short_sleep (1 * 2 ^ i)"
      by (simp add: short_sleep_def)
  qed
  from retry_loop_returns [OF this, of gen prompt w] show ?thesis
    by (simp add: make_gemini_call_with_retry_def)
qed

lemma comprehension_filter_map:
  "[strip item. item \<leftarrow> xs, strip item \<noteq> []] = filter (\<lambda>item. item \<noteq> []) (map strip xs)"
  by (induction xs) auto

lemma bullet_items_fragments:
  "\<exists>frags items. str_join ''- '' frags = raw \<and> (\<forall>f\<in>set frags. \<not> contains ''- '' f) \<and>
           list_all2 trims_to frags items \<and>
           bullet_items raw = filter (\<lambda>item. item \<noteq> []) items"
proof (intro exI conjI)
  show "str_join ''- '' (split_from CHR ''-'' '' '' raw) = raw"
    by (rule str_join_split_from)
  show "\<forall>f\<in>set (split_from CHR ''-'' '' '' raw). \<not> contains ''- '' f"
    using split_from_no_separator by blast
  show "list_all2 trims_to (split_from CHR ''-'' '' '' raw) (map strip (split_from CHR ''-'' '' '' raw))"
    by (simp add: list_all2_map2 list_all2_same strip_trims)
  show "bullet_items raw = filter (\<lambda>item. item \<noteq> []) (map strip (split_from CHR ''-'' '' '' raw))"
    unfolding bullet_items_def str_split_def by (rule comprehension_filter_map)
qed

text \<open>
  C5. For every transcript, service and world, \<open>extract_action_items\<close> and
  \<open>highlight_key_decisions\<close> get a response string from the client and: when the
  response contains the marker phrase (\<open>No action items identified\<close>, respectively
  \<open>No key decisions identified\<close>) the result is the empty list; otherwise the result is
  made of the fragments of the response between the occurrences of \<open>"- "\<close> (joined
  again with \<open>"- "\<close> they give the response, and none of them contains \<open>"- "\<close>), each
  one trimmed (the whitespace at its two ends removed, and none left there), the empty
  ones dropped, in order. The response
  \<open>"- Alice to send report by Friday- Bob to review deck"\<close> gives exactly its two items,
  and so does the same list written one item a line, where the fragments end in a
  newline that trimming removes.
\<close>

theorem bulleted_response_parsing:
  "(\<exists>raw w'. make_gemini_call_with_retry (action_items_prompt transcript) gen 7 1.0 w = (Inr raw, w') \<and>
      (if contains ''No action items identified'' raw
       then extract_action_items gen transcript w = (Inr [], w')
       else \<exists>frags items.
              str_join ''- '' frags = raw \<and> (\<forall>f\<in>set frags. \<not> contains ''- '' f) \<and>
              list_all2 trims_to frags items \<and>
              extract_action_items gen transcript w =
                (Inr (filter (\<lambda>item. item \<noteq> []) items), w'))) \<and>
   (\<exists>raw w'. make_gemini_call_with_retry (key_decisions_prompt transcript) gen 7 1.0 w = (Inr raw, w') \<and>
      (if contains ''No key decisions identified'' raw
       then highlight_key_decisions gen transcript w = (Inr [], w')
       else \<exists>frags items.
              str_join ''- '' frags = raw \<and> (\<forall>f\<in>set frags. \<not> contains ''- '' f) \<and>
              list_all2 trims_to frags items \<and>
              highlight_key_decisions gen transcript w =
                (Inr (filter (\<lambda>item. item \<noteq> []) items), w'))) \<and>
   bullet_items ''- Alice to send report by Friday- Bob to review deck'' =
     [''Alice to send report by Friday'', ''Bob to review deck''] \<and>
   bullet_items (''- Alice to send report by Friday '' @ [NL] @ ''-   Bob to review deck'' @ [NL]) =
     [''Alice to send report by Friday'', ''Bob to review deck'']"
proof (intro conjI)
  obtain raw w' where r:
    "make_gemini_call_with_retry (action_items_prompt transcript) gen 7 1.0 w = (Inr raw, w')"
    using default_client_returns by blast
  show "\<exists>raw w'. make_gemini_call_with_retry (action_items_prompt transcript) gen 7 1.0 w = (Inr raw, w') \<and>
      (if contains ''No action items identified'' raw
       then extract_action_items gen transcript w = (Inr [], w')
       else \<exists>frags items.
              str_join ''- '' frags = raw \<and> (\<forall>f\<in>set frags. \<not> contains ''- '' f) \<and>
              list_all2 trims_to frags items \<and>
              extract_action_items gen transcript w =
                (Inr (filter (\<lambda>item. item \<noteq> []) items), w'))"
  proof (intro exI conjI)
    show "make_gemini_call_with_retry (action_items_prompt transcript) gen 7 1.0 w = (Inr raw, w')"
      by (rule r)
    show "if contains ''No action items identified'' raw
       then extract_action_items gen transcript w = (Inr [], w')
       else \<exists>frags items.
              str_join ''- '' frags = raw \<and> (\<forall>f\<in>set frags. \<not> contains ''- '' f) \<and>
              list_all2 trims_to frags items \<and>
              extract_action_items gen transcript w =
                (Inr (filter (\<lambda>item. item \<noteq> []) items), w')"
      using bullet_items_fragments [of raw] r by (simp add: extract_action_items_def)
  qed
next
  obtain raw w' where r:
    "make_gemini_call_with_retry (key_decisions_prompt transcript) gen 7 1.0 w = (Inr raw, w')"
    using default_client_returns by blast
  show "\<exists>raw w'. make_gemini_call_with_retry (key_decisions_prompt transcript) gen 7 1.0 w = (Inr raw, w') \<and>
      (if contains ''No key decisions identified'' raw
       then highlight_key_decisions gen transcript w = (Inr [], w')
       else \<exists>frags items.
              str_join ''- '' frags = raw \<and> (\<forall>f\<in>set frags. \<not> contains ''- '' f) \<and>
              list_all2 trims_to frags items \<and>
              highlight_key_decisions gen transcript w =
                (Inr (filter (\<lambda>item. item \<noteq> []) items), w'))"
  proof (intro exI conjI)
    show "make_gemini_call_with_retry (key_decisions_prompt transcript) gen 7 1.0 w = (Inr raw, w')"
      by (rule r)
    show "if contains ''No key decisions identified'' raw
       then highlight_key_decisions gen transcript w = (Inr [], w')
       else \<exists>frags items.
              str_join ''- '' frags = raw \<and> (\<forall>f\<in>set frags. \<not> contains ''- '' f) \<and>
              list_all2 trims_to frags items \<and>
              highlight_key_decisions gen transcript w =
                (Inr (filter (\<lambda>item. item \<noteq> []) items), w')"
      using bullet_items_fragments [of raw] r by (simp add: highlight_key_decisions_def)
  qed
next
  show "bullet_items ''- Alice to send report by Friday- Bob to review deck'' =
     [''Alice to send report by Friday'', ''Bob to review deck'']"
    by code_simp
next
  show "bullet_items (''- Alice to send report by Friday '' @ [NL] @ ''-   Bob to review deck'' @ [NL]) =
     [''Alice to send report by Friday'', ''Bob to review deck'']"
    by code_simp
qed

theorem bulleted_response_parsing_witness:
  "extract_action_items
       (\<lambda>p (n::nat). (if contains ''Action Items:'' p
                       then Text (''- Alice to send report by Friday '' @ [NL] @ ''-   Bob to review deck'' @ [NL])
                       else Text '' No key decisions identified. '', Suc n))
       ''budget approved'' \<lparr>svc = 0, sleeps = [], calls = 0\<rparr> =
     (Inr [''Alice to send report by Friday'', ''Bob to review deck''],
      \<lparr>svc = 1, sleeps = [], calls = 1\<rparr>) \<and>
   highlight_key_decisions
       (\<lambda>p (n::nat). (if contains ''Action Items:'' p
                       then Text (''- Alice to send report by Friday '' @ [NL] @ ''-   Bob to review deck'' @ [NL])
                       else Text '' No key decisions identified. '', Suc n))
       ''budget approved'' \<lparr>svc = 0, sleeps = [], calls = 0\<rparr> =
     (Inr [], \<lparr>svc = 1, sleeps = [], calls = 1\<rparr>)"
proof
  let ?t = "''- Alice to send report by Friday '' @ [NL] @ ''-   Bob to review deck'' @ [NL]"
  let ?gen = "\<lambda>p (n::nat). (if contains ''Action Items:'' p then Text ?t
                             else Text '' No key decisions identified. '', Suc n)"
  let ?w = "\<lparr>svc = 0::nat, sleeps = [], calls = 0\<rparr>"
  have p: "\<not> contains ''Action Items:'' (key_decisions_prompt ''budget approved'')"
    by code_simp
  have s: "strip '' No key decisions identified. '' = ''No key decisions identified.''"
    by code_simp
  have c: "make_gemini_call_with_retry (key_decisions_prompt ''budget approved'') ?gen 7 1.0 ?w =
             (Inr ''No key decisions identified.'', \<lparr>svc = 1, sleeps = [], calls = 1\<rparr>)"
    using retry_loop_text [of 0 7 ?gen "key_decisions_prompt ''budget approved''" ?w
        "'' No key decisions identified. ''" 1 1] p s
    by (simp add: make_gemini_call_with_retry_def)
  have m: "contains ''No key decisions identified'' ''No key decisions identified.''"
    by code_simp
  show "highlight_key_decisions ?gen ''budget approved'' ?w =
          (Inr [], \<lparr>svc = 1, sleeps = [], calls = 1\<rparr>)"
    using bulleted_response_parsing [of "''budget approved''" ?gen ?w] c m by auto
next
  let ?t = "''- Alice to send report by Friday '' @ [NL] @ ''-   Bob to review deck'' @ [NL]"
  let ?raw = "''- Alice to send report by Friday '' @ [NL] @ ''-   Bob to review deck''"
  let ?gen = "\<lambda>p (n::nat). (if contains ''Action Items:'' p then Text ?t
                             else Text '' No key decisions identified. '', Suc n)"
  let ?w = "\<lparr>svc = 0::nat, sleeps = [], calls = 0\<rparr>"
  have p: "contains ''Action Items:'' (action_items_prompt ''budget approved'')"
    by code_simp
  have s: "strip ?t = ?raw"
    by code_simp
  have c: "make_gemini_call_with_retry (action_items_prompt ''budget approved'') ?gen 7 1.0 ?w =
             (Inr ?raw, \<lparr>svc = 1, sleeps = [], calls = 1\<rparr>)"
    using retry_loop_text [of 0 7 ?gen "action_items_prompt ''budget approved''" ?w ?t 1 1] p s
    by (simp add: make_gemini_call_with_retry_def)
  have m: "\<not> contains ''No action items identified'' ?raw"
    by code_simp
  have b: "bullet_items ?raw = [''Alice to send report by Friday'', ''Bob to review deck'']"
    by code_simp
  show "extract_action_items ?gen ''budget approved'' ?w =
          (Inr [''Alice to send report by Friday'', ''Bob to review deck''],
           \<lparr>svc = 1, sleeps = [], calls = 1\<rparr>)"
    using c m b by (simp add: extract_action_items_def)
qed

section \<open>The subtitle parser\<close>

lemma flush_utterance_append:
  "flush_utterance L f utterances current = utterances @ flush_utterance L f [] current"
  by (simp add: flush_utterance_def Let_def)

lemma block_utterance_flush:
  "block_utterance L f block =
     flush_utterance L f [] (filter (\<lambda>l. \<not> is_index_line l \<and> \<not> is_timestamp_line l) block)"
  by (simp add: block_utterance_def flush_utterance_def Let_def)





lemma srt_loop_append:
  "srt_loop L f (xs @ ys) utterances current =
     (case srt_loop L f xs utterances current of (u, c) \<Rightarrow> srt_loop L f ys u c)"
  by (induction xs arbitrary: utterances current) (simp_all add: Let_def)

lemma srt_loop_no_blank:
  "\<forall>l\<in>set blk. strip l \<noteq> [] \<Longrightarrow>
   srt_loop L f blk utterances current =
     (utterances,
      current @ filter (\<lambda>l. \<not> is_index_line l \<and> \<not> is_timestamp_line l) (map strip blk))"
  by (induction blk arbitrary: current) (simp_all add: Let_def)

lemma str_find_char:
  "str_find [c] s =
     (if c \<in> set s then Some (length (takeWhile (\<lambda>x. x \<noteq> c) s)) else None)"
  by (induction s) auto

lemma split_from_char_absent: "c \<notin> set a \<Longrightarrow> split_from c [] a = [a]"
  by (simp add: split_from_None str_find_char)

lemma split_from_char_append:
  "split_from c [] (a @ c # b) = split_from c [] a @ split_from c [] b"
proof (induction a rule: length_induct)
  case (1 a)
  let ?j = "length (takeWhile (\<lambda>x. x \<noteq> c) a)"
  show ?case
  proof (cases "c \<in> set a")
    case False
    then have "takeWhile (\<lambda>x. x \<noteq> c) (a @ c # b) = a"
      by (induction a) auto
    then have "str_find [c] (a @ c # b) = Some (length a)"
      by (simp add: str_find_char)
    from split_from_Some [OF this] False show ?thesis
      by (simp add: split_from_char_absent)
  next
    case True
    then have tw: "takeWhile (\<lambda>x. x \<noteq> c) (a @ c # b) = takeWhile (\<lambda>x. x \<noteq> c) a"
      by (simp add: takeWhile_append1)
    have j: "?j < length a"
      using True by (induction a) auto
    have fa: "str_find [c] a = Some ?j"
      using True by (simp add: str_find_char)
    have fab: "str_find [c] (a @ c # b) = Some ?j"
      using True tw by (simp add: str_find_char)
    have "split_from c [] (drop (Suc ?j) a @ c # b) =
            split_from c [] (drop (Suc ?j) a) @ split_from c [] b"
      using "1.IH" j by simp
    with split_from_Some [OF fa] split_from_Some [OF fab] j show ?thesis
      by simp
  qed
qed

lemma split_from_join_lines:
  "blk \<noteq> [] \<Longrightarrow> \<forall>l\<in>set blk. c \<notin> set l \<Longrightarrow> split_from c [] (str_join [c] blk) = blk"
proof (induction blk)
  case Nil
  then show ?case by simp
next
  case (Cons l ls)
  show ?case
  proof (cases "ls = []")
    case True
    with Cons.prems show ?thesis
      by (simp add: split_from_char_absent)
  next
    case False
    with Cons show ?thesis
      by (simp add: str_join_Cons split_from_char_append split_from_char_absent)
  qed
qed


lemma keeps_plain_text_same:
  "keeps_plain_text h \<Longrightarrow> CHR ''<'' \<notin> set t \<Longrightarrow> CHR ''&'' \<notin> set t \<Longrightarrow>
   \<not> list_all is_space t \<Longrightarrow> h t = t"
  by (simp add: keeps_plain_text_def)

lemma keeps_plain_text_blank:
  "keeps_plain_text h \<Longrightarrow> CHR ''<'' \<notin> set t \<Longrightarrow> CHR ''&'' \<notin> set t \<Longrightarrow>
   list_all is_space t \<Longrightarrow> list_all is_space (h t)"
  by (simp add: keeps_plain_text_def)


lemma keeps_plain_text_id: "keeps_plain_text (get_text text_libs)"
  by (simp add: keeps_plain_text_def text_libs_def)


text \<open>
  C7. A final block that no blank line terminates is still flushed: when the content
  ends, after a blank line (or from its start), with lines none of which is blank, the
  result is the result for what precedes followed by what that block contributes: its
  lines other than indices and timestamps joined with single spaces and normalized, when
  that text is not empty.
\<close>

theorem trailing_block_flushed:
  assumes "NL \<notin> set b" and "strip b = []" and "blk \<noteq> []"
    and "\<forall>l\<in>set blk. NL \<notin> set l \<and> strip l \<noteq> []"
  shows "parse_srt_transcript L (pre @ [NL] @ b @ [NL] @ str_join [NL] blk) f =
           parse_srt_transcript L (pre @ [NL] @ b) f @ block_utterance L f (map strip blk) \<and>
         parse_srt_transcript L (str_join [NL] blk) f = block_utterance L f (map strip blk)"
proof
  have lines: "split_from NL [] (str_join [NL] blk) = blk"
    using assms(3,4) by (intro split_from_join_lines) auto
  have noblank: "\<forall>l\<in>set blk. strip l \<noteq> []"
    using assms(4) by blast
  obtain u c where pre: "srt_loop L f (split_from NL [] pre) [] [] = (u, c)"
    by (cases "srt_loop L f (split_from NL [] pre) [] []")
  let ?u1 = "flush_utterance L f u c"
  have sep: "srt_loop L f [b] u c = (?u1, [])"
    using assms(2) by (simp add: flush_utterance_def)
  have "split_from NL [] (pre @ [NL] @ b) = split_from NL [] pre @ [b]"
    using assms(1) by (simp add: split_from_char_append split_from_char_absent)
  then have before: "parse_srt_transcript L (pre @ [NL] @ b) f = ?u1"
    using pre sep
    by (simp add: parse_srt_transcript_def str_split_def srt_loop_append flush_utterance_def
        del: srt_loop.simps)
  have "split_from NL [] (pre @ [NL] @ b @ [NL] @ str_join [NL] blk) =
          (split_from NL [] pre @ [b]) @ blk"
    using assms(1) lines
    by (simp add: split_from_char_append split_from_char_absent)
  moreover have "srt_loop L f ((split_from NL [] pre @ [b]) @ blk) [] [] =
          (?u1, filter (\<lambda>l. \<not> is_index_line l \<and> \<not> is_timestamp_line l) (map strip blk))"
    using srt_loop_no_blank [OF noblank, of L f ?u1 "[]"]
    by (simp only: srt_loop_append pre sep prod.case append_Nil)
  ultimately have "parse_srt_transcript L (pre @ [NL] @ b @ [NL] @ str_join [NL] blk) f =
               flush_utterance L f ?u1
                 (filter (\<lambda>l. \<not> is_index_line l \<and> \<not> is_timestamp_line l) (map strip blk))"
    by (simp add: parse_srt_transcript_def str_split_def)
  with before
  show "parse_srt_transcript L (pre @ [NL] @ b @ [NL] @ str_join [NL] blk) f =
          parse_srt_transcript L (pre @ [NL] @ b) f @ block_utterance L f (map strip blk)"
    by (simp add: block_utterance_flush
        flush_utterance_append [of L f ?u1 "filter (\<lambda>l. \<not> is_index_line l \<and> \<not> is_timestamp_line l) (map strip blk)"])
  show "parse_srt_transcript L (str_join [NL] blk) f = block_utterance L f (map strip blk)"
    using lines srt_loop_no_blank [OF noblank, of L f "[]" "[]"]
    by (simp add: parse_srt_transcript_def str_split_def block_utterance_flush)
qed

theorem trailing_block_flushed_witness:
  "parse_srt_transcript text_libs
     ((''1'' @ [NL] @ ''00:00:00,000 --> 00:00:02,500'' @ [NL] @ ''Hello world.'') @ [NL] @ [] @ [NL] @
      str_join [NL] [''2'', ''00:00:03,000 --> 00:00:05,000'', ''This is'', ''a test.'']) False =
   [''hello world'', ''this is a test'']"
proof -
  let ?pre = "''1'' @ [NL] @ ''00:00:00,000 --> 00:00:02,500'' @ [NL] @ ''Hello world.''"
  let ?blk = "[''2'', ''00:00:03,000 --> 00:00:05,000'', ''This is'', ''a test.'']"
  have h: "\<forall>l\<in>set ?blk. NL \<notin> set l \<and> strip l \<noteq> []"
    by code_simp
  have s: "strip [] = []"
    by code_simp
  have a: "parse_srt_transcript text_libs (?pre @ [NL] @ []) False = [''hello world'']"
    by code_simp
  have b: "block_utterance text_libs False (map strip ?blk) = [''this is a test'']"
    by code_simp
  have n: "NL \<notin> set []"
    by simp
  have ne: "?blk \<noteq> []"
    by simp
  note flushed = trailing_block_flushed [OF n s ne h, of text_libs ?pre False, THEN conjunct1]
  have "parse_srt_transcript text_libs (?pre @ [NL] @ [] @ [NL] @ str_join [NL] ?blk) False =
          [''hello world''] @ [''this is a test'']"
    by (simp only: flushed a b)
  then show ?thesis
    by (simp only: append_Cons append_Nil)
qed

section \<open>The normalizer applied twice\<close>

lemma lower_char_space: "is_space c \<Longrightarrow> lower_char c = c"
  by (auto simp: lower_char_def is_upper_def is_space_def Let_def)

lemma lower_char_word: "is_word c \<Longrightarrow> is_word (lower_char c)"
proof (cases "is_upper c")
  case False
  then show "is_word c \<Longrightarrow> ?thesis" by (simp add: lower_char_def)
next
  case True
  define n where "n = ord c"
  from True have range: "(65 \<le> n \<and> n \<le> 90) \<or> (192 \<le> n \<and> n \<le> 222 \<and> n \<noteq> 215)"
    by (simp add: is_upper_def Let_def n_def)
  then have "(n + 32) mod 256 = n + 32"
    by auto
  then have "ord (lower_char c) = n + 32"
    using True by (simp add: lower_char_def ord_def n_def)
  moreover from range have "(97 \<le> n + 32 \<and> n + 32 \<le> 122) \<or> (216 \<le> n + 32 \<and> n + 32 \<le> 246) \<or>
      (248 \<le> n + 32 \<and> n + 32 \<le> 255)"
    by arith
  ultimately show ?thesis
    by (simp add: is_word_def Let_def) blast
qed

lemma markup_is_punctuation:
  "\<not> is_word CHR ''<''" "\<not> is_space CHR ''<''" "\<not> is_word CHR ''&''" "\<not> is_space CHR ''&''"
  by code_simp+

lemma dropWhile_same_length: "length (dropWhile P xs) = length xs \<Longrightarrow> dropWhile P xs = xs"
proof (cases xs)
  case Nil
  then show ?thesis by simp
next
  case (Cons x xs')
  assume len: "length (dropWhile P xs) = length xs"
  have "length (dropWhile P xs') \<le> length xs'"
    by (rule length_dropWhile_le)
  with len Cons show ?thesis
    by (cases "P x") auto
qed

lemma length_strip: "length (strip t) \<le> length t"
  unfolding strip_def lstrip_def rstrip_def
  by (metis length_dropWhile_le length_rev order_trans)

lemma strip_same_length: "length (strip t) = length t \<Longrightarrow> strip t = t"
proof -
  assume len: "length (strip t) = length t"
  have a: "length (dropWhile is_space (rev (dropWhile is_space t))) \<le> length (dropWhile is_space t)"
    by (metis length_dropWhile_le length_rev)
  have b: "length (dropWhile is_space t) \<le> length t"
    by (rule length_dropWhile_le)
  from len a b have l1: "length (dropWhile is_space t) = length t"
    by (simp add: strip_def lstrip_def rstrip_def)
  then have e1: "dropWhile is_space t = t"
    by (rule dropWhile_same_length)
  from len e1 have "length (dropWhile is_space (rev t)) = length (rev t)"
    by (simp add: strip_def lstrip_def rstrip_def)
  then have "dropWhile is_space (rev t) = rev t"
    by (rule dropWhile_same_length)
  with e1 show ?thesis
    by (simp add: strip_def lstrip_def rstrip_def)
qed

lemma url_at_shorter: "url_at s = Some rest \<Longrightarrow> length rest < length s \<and> set rest \<subseteq> set s"
proof -
  assume m: "url_at s = Some rest"
  then have r: "rest = dropWhile (\<lambda>c. \<not> is_space c) (drop 4 s)" and "drop 4 s \<noteq> [] \<or> drop 3 s \<noteq> []"
    by (auto simp: url_at_def split: if_splits list.splits)
  then have "s \<noteq> []"
    by auto
  then have pos: "0 < length s"
    by simp
  have "length rest \<le> length (drop 4 s)"
    unfolding r by (rule length_dropWhile_le)
  then have "length rest \<le> length s - 4"
    by simp
  with pos have shorter: "length rest < length s"
    by arith
  have "set rest \<subseteq> set (drop 4 s)"
    unfolding r by (auto dest: set_dropWhileD)
  then have "set rest \<subseteq> set s"
    using set_drop_subset [of 4 s] by blast
  with shorter show ?thesis
    by simp
qed

lemma remove_urls_length: "length (remove_urls t) \<le> length t"
proof (induction t rule: remove_urls.induct)
  case 1
  show ?case by simp
next
  case (2 c cs)
  show ?case
  proof (cases "url_at (c # cs)")
    case None
    with 2 show ?thesis by simp
  next
    case (Some rest)
    with "2.IH"(2) [OF Some] url_at_shorter [OF Some] show ?thesis by simp
  qed
qed

lemma remove_urls_set: "set (remove_urls t) \<subseteq> set t"
proof (induction t rule: remove_urls.induct)
  case 1
  show ?case by simp
next
  case (2 c cs)
  show ?case
  proof (cases "url_at (c # cs)")
    case None
    with 2 show ?thesis by auto
  next
    case (Some rest)
    with "2.IH"(2) [OF Some] url_at_shorter [OF Some] show ?thesis by auto
  qed
qed

lemma remove_urls_same_length: "length (remove_urls t) = length t \<Longrightarrow> remove_urls t = t"
proof (induction t rule: remove_urls.induct)
  case 1
  show ?case by simp
next
  case (2 c cs)
  show ?case
  proof (cases "url_at (c # cs)")
    case None
    with 2 show ?thesis by simp
  next
    case (Some rest)
    have "length (remove_urls rest) \<le> length rest"
      by (rule remove_urls_length)
    with "2.prems" Some url_at_shorter [OF Some] show ?thesis by simp
  qed
qed

lemma remove_punctuation_set: "c \<in> set (remove_punctuation t) \<Longrightarrow> is_word c \<or> is_space c"
  by (simp add: remove_punctuation_def)

lemma remove_punctuation_same: "\<forall>c\<in>set t. is_word c \<or> is_space c \<Longrightarrow> remove_punctuation t = t"
  by (simp add: remove_punctuation_def)

lemma lower_set:
  assumes a: "\<forall>c\<in>set t. is_word c \<or> is_space c"
  shows "\<forall>c\<in>set (lower t). is_word c \<or> is_space c"
proof
  fix c
  assume "c \<in> set (lower t)"
  then obtain d where d: "d \<in> set t" "c = lower_char d"
    by (auto simp: lower_def)
  with a have "is_word d \<or> is_space d"
    by blast
  then show "is_word c \<or> is_space c"
    using d(2) lower_char_word [of d] lower_char_space [of d] by auto
qed

lemma no_markup: "\<forall>c\<in>set t. is_word c \<or> is_space c \<Longrightarrow> CHR ''<'' \<notin> set t \<and> CHR ''&'' \<notin> set t"
  using markup_is_punctuation by blast

text \<open>The normalizer on a text of word characters and whitespace.\<close>

lemma preprocess_text_plain:
  assumes plain: "keeps_plain_text (get_text L)"
    and chars: "\<forall>c\<in>set r. is_word c \<or> is_space c"
  shows "preprocess_text L (PyStr r) False =
           (if list_all is_space (remove_urls (lower r)) then [] else strip (remove_urls (lower r)))"
proof -
  let ?u = "remove_urls (lower r)"
  have u: "\<forall>c\<in>set ?u. is_word c \<or> is_space c"
    using lower_set [OF chars] remove_urls_set [of "lower r"] by blast
  have m: "CHR ''<'' \<notin> set ?u" "CHR ''&'' \<notin> set ?u"
    using no_markup [OF u] by simp_all
  show ?thesis
  proof (cases "list_all is_space ?u")
    case True
    then have b: "list_all is_space (get_text L ?u)"
      by (rule keeps_plain_text_blank [OF plain m])
    then have "remove_punctuation (get_text L ?u) = get_text L ?u"
      by (simp add: remove_punctuation_same list_all_iff)
    with b True show ?thesis
      by (simp add: remove_html_tags_def strip_blank)
  next
    case False
    then have "get_text L ?u = ?u"
      by (rule keeps_plain_text_same [OF plain m])
    with u False show ?thesis
      by (simp add: remove_html_tags_def remove_punctuation_same)
  qed
qed

lemma preprocess_text_result:
  "stripped (preprocess_text L (PyStr s) False) \<and>
   (\<forall>c\<in>set (preprocess_text L (PyStr s) False). is_word c \<or> is_space c)"
proof
  show "stripped (preprocess_text L (PyStr s) False)"
    by (simp add: strip_stripped)
  have unfold: "preprocess_text L (PyStr s) False =
                 strip (remove_punctuation (remove_html_tags L (remove_urls (lower s))))"
    by (simp add: Let_def)
  show "\<forall>c\<in>set (preprocess_text L (PyStr s) False). is_word c \<or> is_space c"
  proof
    fix c
    assume "c \<in> set (preprocess_text L (PyStr s) False)"
    then have "c \<in> set (remove_punctuation (remove_html_tags L (remove_urls (lower s))))"
      unfolding unfold using set_strip by blast
    then show "is_word c \<or> is_space c"
      by (rule remove_punctuation_set)
  qed
qed

text \<open>
  C2. Claimed: \<open>preprocess_text\<close> is idempotent on every string, for each value of the
  flag. URLs are stripped before punctuation, so stripping punctuation can uncover a
  match of the URL pattern that a second pass removes: \<open>"H.T.T.P.S."\<close> is normalized to
  \<open>"https"\<close>, and \<open>"https"\<close> to the empty string.
\<close>

theorem normalizer_not_idempotent_counterexample:
  "preprocess_text text_libs (PyStr ''H.T.T.P.S.'') False = ''https'' \<and>
   preprocess_text text_libs (PyStr (preprocess_text text_libs (PyStr ''H.T.T.P.S.'') False)) False = []"
  by code_simp

text \<open>The same two values for every HTML library that keeps markup-free text.\<close>

lemma normalizer_not_idempotent_any_library:
  assumes plain: "keeps_plain_text (get_text L)"
  shows "preprocess_text L (PyStr ''H.T.T.P.S.'') False = ''https'' \<and>
         preprocess_text L (PyStr ''https'') False = []"
proof
  have before: "remove_urls (lower ''H.T.T.P.S.'') = ''h.t.t.p.s.''"
    by code_simp
  have "\<not> list_all is_space ''h.t.t.p.s.''"
    by code_simp
  then have html: "get_text L ''h.t.t.p.s.'' = ''h.t.t.p.s.''"
    using plain by (simp add: keeps_plain_text_same)
  have after: "strip (remove_punctuation ''h.t.t.p.s.'') = ''https''"
    by code_simp
  show "preprocess_text L (PyStr ''H.T.T.P.S.'') False = ''https''"
    by (simp only: preprocess_text.simps Let_def before remove_html_tags_def html after if_False)
  have chars: "\<forall>c\<in>set ''https''. is_word c \<or> is_space c"
    by code_simp
  have "remove_urls (lower ''https'') = []"
    by code_simp
  then show "preprocess_text L (PyStr ''https'') False = []"
    using preprocess_text_plain [OF plain chars] by simp
qed

text \<open>
  C2, as the code has it: with lemmatization off (and an HTML library that keeps
  markup-free text), normalizing a normalized text \<open>r\<close> gives \<open>r\<close> back exactly when
  lower-casing and URL stripping leave \<open>r\<close> unchanged. In particular the normalizer is
  idempotent on every input whose normalized text has no upper-case character and no
  match of the URL pattern.
\<close>

theorem normalizer_idempotent_iff:
  assumes "keeps_plain_text (get_text L)" and "r = preprocess_text L (PyStr s) False"
  shows "(preprocess_text L (PyStr r) False = r) = (remove_urls (lower r) = r)"
proof -
  let ?u = "remove_urls (lower r)"
  have st: "stripped r" and chars: "\<forall>c\<in>set r. is_word c \<or> is_space c"
    using preprocess_text_result [of L s] assms(2) by simp_all
  note second = preprocess_text_plain [OF assms(1) chars]
  show ?thesis
  proof (cases "list_all is_space ?u")
    case True
    then have p: "preprocess_text L (PyStr r) False = []"
      using second by simp
    show ?thesis
    proof
      assume "preprocess_text L (PyStr r) False = r"
      with p have "r = []" by simp
      then show "?u = r" by (simp add: lower_def)
    next
      assume "?u = r"
      with True st have "r = []" by (simp add: stripped_blank)
      with p show "preprocess_text L (PyStr r) False = r" by simp
    qed
  next
    case False
    then have p: "preprocess_text L (PyStr r) False = strip ?u"
      using second by simp
    show ?thesis
    proof
      assume "preprocess_text L (PyStr r) False = r"
      with p have e: "strip ?u = r" by simp
      have "length (strip ?u) \<le> length ?u"
        by (rule length_strip)
      moreover have "length ?u \<le> length (lower r)"
        by (rule remove_urls_length)
      moreover have "length (lower r) = length r"
        by (simp add: lower_def)
      ultimately have "length (strip ?u) = length ?u"
        using e by simp
      then have "strip ?u = ?u"
        by (rule strip_same_length)
      with e show "?u = r" by simp
    next
      assume "?u = r"
      with p st show "preprocess_text L (PyStr r) False = r"
        by (simp add: stripped_strip)
    qed
  qed
qed

theorem normalizer_idempotent_iff_witness:
  "keeps_plain_text (get_text text_libs) \<and>
   preprocess_text text_libs (PyStr ''Hello, World!'') False = ''hello world'' \<and>
   preprocess_text text_libs (PyStr ''hello world'') False = ''hello world''"
proof -
  have r: "''hello world'' = preprocess_text text_libs (PyStr ''Hello, World!'') False"
    by code_simp
  have u: "remove_urls (lower ''hello world'') = ''hello world''"
    by code_simp
  have "preprocess_text text_libs (PyStr ''hello world'') False = ''hello world''"
    using normalizer_idempotent_iff [OF keeps_plain_text_id r] u by simp
  with r keeps_plain_text_id show ?thesis
    by simp
qed

end
